theory Spec2Isabelle
  imports Complex_Main "HOL-Library.Sublist"
begin

section \<open>Python values shared by the modelled modules\<close>

text \<open>
  Exceptions are values. \<open>ValueError\<close> and \<open>IndexError\<close> are the two built-in
  exceptions the modelled functions can raise themselves, each with its message;
  \<open>Raised\<close> carries the text of an exception that a collaborator (a storage object, a
  translation table) raised and that the function lets through unchanged.
\<close>

datatype error = ValueError string | IndexError string | Raised string

text \<open>
  The built-in \<^verbatim>\<open>range(start, stop, step)\<close>: a zero step raises, a positive step counts
  up while below \<open>stop\<close>, a negative step counts down while above \<open>stop\<close>.
\<close>

function range_up :: "int \<Rightarrow> int \<Rightarrow> int \<Rightarrow> int list" where
  "range_up i stop step =
     (if 0 < step \<and> i < stop then i # range_up (i + step) stop step else [])"
  by pat_completeness auto
termination
  by (relation "measure (\<lambda>(i, stop, step). nat (stop - i))") auto

function range_down :: "int \<Rightarrow> int \<Rightarrow> int \<Rightarrow> int list" where
  "range_down i stop step =
     (if step < 0 \<and> stop < i then i # range_down (i + step) stop step else [])"
  by pat_completeness auto
termination
  by (relation "measure (\<lambda>(i, stop, step). nat (i - stop))") auto

definition py_range :: "int \<Rightarrow> int \<Rightarrow> int \<Rightarrow> error + int list" where
  "py_range start stop step =
     (if step = 0 then Inl (ValueError ''range() arg 3 must not be zero'')
      else if 0 < step then Inr (range_up start stop step)
      else Inr (range_down start stop step))"

text \<open>
  The slice \<^verbatim>\<open>s[i:j]\<close>: a negative bound counts from the end, and both bounds are
  clamped into \<open>0..len(s)\<close>; an empty window gives the empty string.
\<close>

definition slice_bound :: "nat \<Rightarrow> int \<Rightarrow> nat" where
  "slice_bound n i = (if i < 0 then nat (max (i + int n) 0) else min (nat i) n)"

definition py_slice :: "'a list \<Rightarrow> int \<Rightarrow> int \<Rightarrow> 'a list" where
  "py_slice s i j =
     (let lo = slice_bound (length s) i; hi = slice_bound (length s) j
      in take (hi - lo) (drop lo s))"

text \<open>
  Strings are lists of characters, a character being a code point below 256.
  \<^verbatim>\<open>p in s\<close> is \<open>sublist p s\<close>, \<^verbatim>\<open>s.startswith(p)\<close> is \<open>prefix p s\<close>.

  \<^verbatim>\<open>s.split(sep)\<close> cuts \<open>s\<close> at the occurrences of \<open>sep\<close> found from left to right, each
  search starting where the previous occurrence ended; an empty separator raises.
  \<open>split_from sep cur rest\<close> is the scan, \<open>cur\<close> being the piece read so far.
\<close>

function split_from :: "string \<Rightarrow> string \<Rightarrow> string \<Rightarrow> string list" where
  "split_from sep cur [] = [cur]"
| "split_from sep cur (c # cs) =
     (if sep \<noteq> [] \<and> prefix sep (c # cs)
      then cur # split_from sep [] (drop (length sep) (c # cs))
      else split_from sep (cur @ [c]) cs)"
  by pat_completeness auto
termination
  by (relation "measure (\<lambda>(sep, cur, rest). length rest)") auto

definition py_split :: "string \<Rightarrow> string \<Rightarrow> error + string list" where
  "py_split sep s =
     (if sep = [] then Inl (ValueError ''empty separator'') else Inr (split_from sep [] s))"

text \<open>
  \<^verbatim>\<open>s.replace(old, new)\<close> replaces the occurrences of \<open>old\<close> found from left to right
  without overlap; an empty \<open>old\<close> puts \<open>new\<close> before every character and at the end.
\<close>

function py_replace :: "string \<Rightarrow> string \<Rightarrow> string \<Rightarrow> string" where
  "py_replace old new [] = (if old = [] then new else [])"
| "py_replace old new (c # cs) =
     (if old = [] then new @ c # py_replace old new cs
      else if prefix old (c # cs) then new @ py_replace old new (drop (length old) (c # cs))
      else c # py_replace old new cs)"
  by pat_completeness auto
termination
  by (relation "measure (\<lambda>(old, new, s). length s)") auto

text \<open>\<^verbatim>\<open>sep.join(parts)\<close>.\<close>

fun py_join :: "string \<Rightarrow> string list \<Rightarrow> string" where
  "py_join sep [] = []"
| "py_join sep [x] = x"
| "py_join sep (x # xs) = x @ sep @ py_join sep xs"

text \<open>
  \<^verbatim>\<open>s.strip()\<close> removes the white space at both ends. Below 256 the code points with
  \<^verbatim>\<open>isspace()\<close> are 9 to 13, 28 to 32, 133 and 160.
\<close>

definition isspace :: "char \<Rightarrow> bool" where
  "isspace c \<longleftrightarrow> (of_char c :: nat) \<in> {9, 10, 11, 12, 13, 28, 29, 30, 31, 32, 133, 160}"

definition py_strip :: "string \<Rightarrow> string" where
  "py_strip s = rev (dropWhile isspace (rev (dropWhile isspace s)))"

text \<open>
  \<^verbatim>\<open>xs[i]\<close> on a list: a negative index counts from the end, an index outside the list
  raises \<open>IndexError\<close>.
\<close>

definition py_index :: "'a list \<Rightarrow> int \<Rightarrow> error + 'a" where
  "py_index xs i =
     (if 0 \<le> i \<and> i < int (length xs) then Inr (xs ! nat i)
      else if i < 0 \<and> - int (length xs) \<le> i then Inr (xs ! nat (i + int (length xs)))
      else Inl (IndexError ''list index out of range''))"

text \<open>
  A call of a collaborator's method returns a value or the text of the exception it
  raised; the caller, which catches nothing, raises it again.
\<close>

definition propagate :: "string + 'a \<Rightarrow> error + 'a" where
  "propagate r = (case r of Inl exn \<Rightarrow> Inl (Raised exn) | Inr v \<Rightarrow> Inr v)"

section \<open>Knowledge source: \<^verbatim>\<open>base_knowledge_source.py\<close>\<close>

text \<open>
  The fields of \<^verbatim>\<open>BaseKnowledgeSource\<close>. \<open>'st\<close> is the state of a \<^verbatim>\<open>KnowledgeStorage\<close>
  object and \<open>'emb\<close> an embedding vector; both classes are declared outside this module.
  The field \<^verbatim>\<open>metadata\<close> (a dictionary of untyped values, marked unused) is left out.
\<close>

record ('st, 'emb) knowledge_source =
  chunk_size :: int
  chunk_overlap :: int
  chunks :: "string list"
  chunk_embeddings :: "'emb list"
  storage :: "'st option"
  collection_name :: "string option"

text \<open>
  A source constructed with a chunk size and an overlap, every other field at its
  default (no chunks, no embeddings, no storage, no collection name).
\<close>

definition new_source :: "int \<Rightarrow> int \<Rightarrow> (unit, unit) knowledge_source" where
  "new_source c ov =
     \<lparr>chunk_size = c, chunk_overlap = ov, chunks = [], chunk_embeddings = [],
      storage = None, collection_name = None\<rparr>"

text \<open>
  \<^verbatim>\<open>
  def _chunk_text(self, text):
      return [text[i : i + self.chunk_size]
              for i in range(0, len(text), self.chunk_size - self.chunk_overlap)]
  \<close>
  \<open>chunk_size\<close> and \<open>chunk_overlap\<close> are plain \<open>int\<close> fields without validation.
\<close>

definition chunk_text :: "('st, 'emb) knowledge_source \<Rightarrow> string \<Rightarrow> error + string list" where
  "chunk_text self text =
     (case py_range 0 (int (length text)) (chunk_size self - chunk_overlap self) of
        Inl e \<Rightarrow> Inl e
      | Inr idx \<Rightarrow> Inr (map (\<lambda>i. py_slice text i (i + chunk_size self)) idx))"





subsection \<open>Notions used to state the chunking properties\<close>

text \<open>
  The windows of width \<open>c\<close> taken every \<open>s\<close> positions: the closed form of the chunk list,
  proved equal to \<open>chunk_text\<close> below for \<open>0 \<le> chunk_overlap < chunk_size\<close>.
\<close>

definition windows :: "nat \<Rightarrow> nat \<Rightarrow> 'a list \<Rightarrow> 'a list list" where
  "windows c s text =
     map (\<lambda>k. take c (drop (k * s) text)) [0..<(length text + s - 1) div s]"

text \<open>
  Two strings overlap by exactly \<open>m\<close> characters when both have at least \<open>m\<close> characters
  and the last \<open>m\<close> of the first are the first \<open>m\<close> of the second.
\<close>

definition overlap_by :: "nat \<Rightarrow> 'a list \<Rightarrow> 'a list \<Rightarrow> bool" where
  "overlap_by m a b \<longleftrightarrow> m \<le> length a \<and> m \<le> length b \<and> drop (length a - m) a = take m b"

fun adjacent_overlap :: "nat \<Rightarrow> 'a list list \<Rightarrow> bool" where
  "adjacent_overlap m (a # b # cs) \<longleftrightarrow> overlap_by m a b \<and> adjacent_overlap m (b # cs)"
| "adjacent_overlap m cs \<longleftrightarrow> True"

text \<open>
  Putting the chunks back together: the first \<open>stride\<close> characters of every chunk but
  the last, then the last chunk whole.
\<close>

fun reassemble :: "nat \<Rightarrow> 'a list list \<Rightarrow> 'a list" where
  "reassemble stride [] = []"
| "reassemble stride [c] = c"
| "reassemble stride (c # cs) = take stride c @ reassemble stride cs"

text \<open>A result that holds a zero-length chunk.\<close>

definition has_empty_chunk :: "error + string list \<Rightarrow> bool" where
  "has_empty_chunk r = (case r of Inl e \<Rightarrow> False | Inr cs \<Rightarrow> [] \<in> set cs)"


section \<open>Cache tool: \<^verbatim>\<open>cache_tools.py\<close>\<close>

text \<open>
  \<^verbatim>\<open>
  def hit_cache(self, key):
      split = key.split("tool:")
      tool = split[1].split("|input:")[0].strip()
      tool_input = split[1].split("|input:")[1].strip()
      return self.cache_handler.read(tool, tool_input)
  \<close>
  \<open>read\<close> is the method of the \<^verbatim>\<open>CacheHandler\<close>, a class declared outside this module.
\<close>

definition hit_cache :: "(string \<Rightarrow> string \<Rightarrow> string + 'v) \<Rightarrow> string \<Rightarrow> error + 'v" where
  "hit_cache read key =
     (case py_split ''tool:'' key of Inl e \<Rightarrow> Inl e | Inr split \<Rightarrow>
      case py_index split 1 of Inl e \<Rightarrow> Inl e | Inr seg \<Rightarrow>
      case py_split ''|input:'' seg of Inl e \<Rightarrow> Inl e | Inr parts \<Rightarrow>
      case py_index parts 0 of Inl e \<Rightarrow> Inl e | Inr t \<Rightarrow>
      let tool = py_strip t in
      case py_index split 1 of Inl e \<Rightarrow> Inl e | Inr seg' \<Rightarrow>
      case py_split ''|input:'' seg' of Inl e \<Rightarrow> Inl e | Inr parts' \<Rightarrow>
      case py_index parts' 1 of Inl e \<Rightarrow> Inl e | Inr u \<Rightarrow>
      let tool_input = py_strip u in
      propagate (read tool tool_input))"

text \<open>
  A cache handler whose \<open>read\<close> answers with the tool name and the input it was asked
  for: it shows what \<open>hit_cache\<close> parsed.
\<close>

definition echo_read :: "string \<Rightarrow> string \<Rightarrow> string + (string \<times> string)" where
  "echo_read tool tool_input = Inr (tool, tool_input)"

text \<open>A string with no white space at its ends.\<close>

definition trimmed :: "string \<Rightarrow> bool" where
  "trimmed s \<longleftrightarrow> (s = [] \<or> (\<not> isspace (hd s) \<and> \<not> isspace (last s)))"

section \<open>Prompt builder: \<^verbatim>\<open>prompts.py\<close>\<close>

text \<open>
  The agent is an object of which the builder reads three string attributes. The
  field \<open>i18n\<close> holds the \<^verbatim>\<open>slice\<close> method of the \<^verbatim>\<open>I18N\<close> object, a class declared outside
  this module: it returns the text of a named slice or raises.
\<close>

record agent =
  goal :: string
  role :: string
  backstory :: string

record prompts =
  i18n :: "string \<Rightarrow> string + string"
  has_tools :: bool
  system_template :: "string option"
  prompt_template :: "string option"
  response_template :: "string option"
  use_system_prompt :: "bool option"
  agent :: agent

text \<open>
  The truth value of an optional string: \<^verbatim>\<open>None\<close> and the empty string are false.
  \<open>template_text\<close> reads a template that is set.
\<close>

definition truthy :: "string option \<Rightarrow> bool" where
  "truthy t = (case t of None \<Rightarrow> False | Some s \<Rightarrow> s \<noteq> [])"

definition template_text :: "string option \<Rightarrow> string" where
  "template_text t = (case t of None \<Rightarrow> [] | Some s \<Rightarrow> s)"

text \<open>
  The comprehension \<^verbatim>\<open>[self.i18n.slice(component) for component in components]\<close>: the
  slices are fetched in order and the first exception ends the comprehension.
\<close>

fun slices :: "(string \<Rightarrow> string + string) \<Rightarrow> string list \<Rightarrow> error + string list" where
  "slices sl [] = Inr []"
| "slices sl (component # components) =
     (case propagate (sl component) of
        Inl e \<Rightarrow> Inl e
      | Inr part \<Rightarrow>
          (case slices sl components of Inl e \<Rightarrow> Inl e | Inr parts \<Rightarrow> Inr (part # parts)))"

text \<open>
  \<^verbatim>\<open>
  def _build_prompt(self, components, system_template=None, prompt_template=None,
                    response_template=None):
      if not system_template or not prompt_template:
          prompt_parts = [self.i18n.slice(component) for component in components]
          prompt = "".join(prompt_parts)
      else:
          prompt_parts = [self.i18n.slice(component)
                          for component in components if component != "task"]
          system = system_template.replace("{{ .System }}", "".join(prompt_parts))
          prompt = prompt_template.replace(
              "{{ .Prompt }}", "".join(self.i18n.slice("task")))
          if response_template:
              response = response_template.split("{{ .Response }}")[0]
              prompt = f"{system}\n{prompt}\n{response}"
          else:
              prompt = f"{system}\n{prompt}"
      prompt = (prompt.replace("{goal}", self.agent.goal)
                .replace("{role}", self.agent.role)
                .replace("{backstory}", self.agent.backstory))
      return prompt
  \<close>
  \<open>assemble_prompt\<close> is the function up to the final substitution: it yields the
  assembled template. Joining the characters of the task slice with the empty string
  gives the slice again.
\<close>

definition assemble_prompt ::
  "prompts \<Rightarrow> string list \<Rightarrow> string option \<Rightarrow> string option \<Rightarrow> string option
     \<Rightarrow> error + string" where
  "assemble_prompt self components system_template' prompt_template' response_template' =
     (if \<not> truthy system_template' \<or> \<not> truthy prompt_template' then
        (case slices (i18n self) components of
           Inl e \<Rightarrow> Inl e
         | Inr prompt_parts \<Rightarrow> Inr (concat prompt_parts))
      else
        (case slices (i18n self) (filter (\<lambda>component. component \<noteq> ''task'') components) of
           Inl e \<Rightarrow> Inl e
         | Inr prompt_parts \<Rightarrow>
             let system = py_replace ''{{ .System }}'' (concat prompt_parts)
                            (template_text system_template')
             in (case propagate (i18n self ''task'') of
                   Inl e \<Rightarrow> Inl e
                 | Inr task \<Rightarrow>
                     let prompt = py_replace ''{{ .Prompt }}'' task (template_text prompt_template')
                     in if truthy response_template' then
                          (case py_split ''{{ .Response }}'' (template_text response_template') of
                             Inl e \<Rightarrow> Inl e
                           | Inr pieces \<Rightarrow>
                               (case py_index pieces 0 of
                                  Inl e \<Rightarrow> Inl e
                                | Inr response \<Rightarrow>
                                    Inr (system @ ''\<newline>'' @ prompt @ ''\<newline>'' @ response)))
                        else Inr (system @ ''\<newline>'' @ prompt))))"

definition build_prompt ::
  "prompts \<Rightarrow> string list \<Rightarrow> string option \<Rightarrow> string option \<Rightarrow> string option
     \<Rightarrow> error + string" where
  "build_prompt self components system_template' prompt_template' response_template' =
     (case assemble_prompt self components system_template' prompt_template' response_template' of
        Inl e \<Rightarrow> Inl e
      | Inr prompt \<Rightarrow>
          Inr (py_replace ''{backstory}'' (backstory (agent self))
                (py_replace ''{role}'' (role (agent self))
                  (py_replace ''{goal}'' (goal (agent self)) prompt))))"

text \<open>
  \<open>replaced_all old new s s'\<close>: the string \<open>s\<close> is made of pieces free of \<open>old\<close> with \<open>old\<close>
  between them, and \<open>s'\<close> is made of the same pieces with \<open>new\<close> between them.
\<close>

definition replaced_all :: "string \<Rightarrow> string \<Rightarrow> string \<Rightarrow> string \<Rightarrow> bool" where
  "replaced_all old new s s' \<longleftrightarrow>
     (\<exists>pieces. pieces \<noteq> [] \<and> (\<forall>x \<in> set pieces. \<not> sublist old x)
        \<and> s = py_join old pieces \<and> s' = py_join new pieces)"

text \<open>A translation table with two slices, and prompts built on it.\<close>

definition two_slices :: "string \<Rightarrow> string + string" where
  "two_slices name =
     (if name = ''role_playing'' then Inr ''You are {role}. {backstory} Goal: {goal}''
      else if name = ''task'' then Inr '' Task: {input}''
      else Inl ''KeyError'')"

definition sample_prompts :: prompts where
  "sample_prompts =
     \<lparr>i18n = two_slices, has_tools = False, system_template = None, prompt_template = None,
      response_template = None, use_system_prompt = Some False,
      agent = \<lparr>goal = ''win'', role = ''a scout'', backstory = ''Born in {goal}.''\<rparr>\<rparr>"

section \<open>Converter: \<^verbatim>\<open>converter.py\<close>, modelled from the specification\<close>

text \<open>
  Modelled from the spec: the class \<^verbatim>\<open>Converter\<close> of \<^verbatim>\<open>crewai/utilities/converter.py\<close>, with
  its method \<^verbatim>\<open>to_pydantic\<close>, is not among the source files; only its tests are. The
  definitions of this section follow the description of the converter in the
  specification (data model, component design and error handling).

  A target schema is given by its two ways of reading a text: strict parsing and
  validation, and the lenient fallback that extracts the first JSON-like substring.
  Each returns an instance or the reason of its failure.
\<close>

record 'm schema =
  strict :: "string \<Rightarrow> string + 'm"
  lenient :: "string \<Rightarrow> string + 'm"

text \<open>
  Modelled from the spec: "a conversion error carrying the last raw output and failure
  reason". The message is the one the tests look for.
\<close>

datatype converter_error = ConverterError (message: string) (raw_output: string) (failure: string)

text \<open>
  Modelled from the spec: the LLM client "must expose a text-completion call and a
  capability flag for native structured output". \<open>respond k\<close> is the text that the
  completion call number \<open>k\<close> returns (counted from 0), \<open>structured\<close> the result of the
  native mechanism.
\<close>

record 'm llm =
  supports_function_calling :: bool
  respond :: "nat \<Rightarrow> string"
  structured :: "converter_error + 'm"

text \<open>
  Modelled from the spec: a converter "holds an LLM handle, source text, target schema,
  instructions, and a retry budget".
\<close>

record 'm converter =
  llm_handle :: "'m llm"
  source_text :: string
  target_schema :: "'m schema"
  instructions :: string
  max_attempts :: int

text \<open>What a conversion does besides returning: completion calls and parses, in order.\<close>

datatype event = Completion string | StrictParse string | LenientParse string

fun is_completion :: "event \<Rightarrow> bool" where
  "is_completion (Completion r) = True"
| "is_completion e = False"

text \<open>
  Modelled from the spec: "issue a plain-text completion call, attempt strict parsing
  against the schema; on parse/validation failure, attempt a lenient extract first
  JSON-like substring fallback; if that also fails, re-issue the completion call up to a
  configured attempt limit, returning the first successful validation. Exhausting
  attempts raises a conversion error carrying the last raw output and failure reason."
  Attempts are counted from 1, as the test with three answers and a limit of three has it.
\<close>

function attempt :: "'m converter \<Rightarrow> int \<Rightarrow> (converter_error + 'm) \<times> event list" where
  "attempt conv current_attempt =
     (let response = respond (llm_handle conv) (nat (current_attempt - 1)) in
      case strict (target_schema conv) response of
        Inr obj \<Rightarrow> (Inr obj, [Completion response, StrictParse response])
      | Inl reason \<Rightarrow>
          (case lenient (target_schema conv) response of
             Inr obj \<Rightarrow>
               (Inr obj, [Completion response, StrictParse response, LenientParse response])
           | Inl reason' \<Rightarrow>
               if current_attempt < max_attempts conv then
                 (case attempt conv (current_attempt + 1) of
                    (outcome, events) \<Rightarrow>
                      (outcome,
                       [Completion response, StrictParse response, LenientParse response]
                         @ events))
               else
                 (Inl (ConverterError ''Failed to convert text into a Pydantic model''
                         response reason'),
                  [Completion response, StrictParse response, LenientParse response])))"
  by pat_completeness auto
termination
  by (relation "measure (\<lambda>(conv, current_attempt). nat (max_attempts conv - current_attempt))")
     auto

text \<open>
  Modelled from the spec: "if the LLM backend supports native structured/function-calling
  output, delegate directly to that mechanism and return its result. Otherwise" the
  attempts above.
\<close>

definition to_pydantic :: "'m converter \<Rightarrow> (converter_error + 'm) \<times> event list" where
  "to_pydantic conv =
     (if supports_function_calling (llm_handle conv) then (structured (llm_handle conv), [])
      else attempt conv 1)"

text \<open>
  A converter whose LLM never answers with JSON: its first answer is \<open>Invalid JSON\<close>, every
  later one \<open>Still invalid\<close>; the schema accepts a text only if it is \<open>{}\<close>.
\<close>

definition sample_converter :: "unit converter" where
  "sample_converter =
     \<lparr>llm_handle =
        \<lparr>supports_function_calling = False,
         respond = (\<lambda>k. if k = 0 then ''Invalid JSON'' else ''Still invalid''),
         structured = Inl (ConverterError ''not supported'' [] [])\<rparr>,
      source_text = ''Name: Alice, Age: 30'',
      target_schema =
        \<lparr>strict = (\<lambda>r. if r = ''{}'' then Inr () else Inl ''not valid JSON''),
         lenient = (\<lambda>r. if sublist ''{}'' r then Inr () else Inl ''no JSON found'')\<rparr>,
      instructions = ''Convert to JSON'',
      max_attempts = 3\<rparr>"

section \<open>Properties of the knowledge source\<close>

subsection \<open>The chunk list in closed form\<close>

lemma range_up_closed:
  "0 < step \<Longrightarrow> range_up i stop step =
     map (\<lambda>k. i + int k * step) [0..<nat ((stop - i + step - 1) div step)]"
proof (induction i stop step rule: range_up.induct)
  case (1 i stop step)
  show ?case
  proof (cases "i < stop")
    case False
    with 1 have "(stop - i + step - 1) div step \<le> (step - 1) div step"
      by (intro zdiv_mono1) auto
    with 1 have "(stop - i + step - 1) div step \<le> 0"
      by (simp add: div_pos_pos_trivial)
    with False 1 show ?thesis by simp
  next
    case True
    define n where "n = nat ((stop - (i + step) + step - 1) div step)"
    have "stop - i + step - 1 = (stop - (i + step) + step - 1) + step"
      by simp
    then have "(stop - i + step - 1) div step = (stop - (i + step) + step - 1) div step + 1"
      using 1(2) by (metis div_add_self2 less_irrefl)
    moreover have "0 \<le> (stop - (i + step) + step - 1) div step"
      using True 1(2) by (simp add: pos_imp_zdiv_nonneg_iff)
    ultimately have len: "nat ((stop - i + step - 1) div step) = Suc n"
      by (simp add: n_def)
    have "range_up i stop step = i # range_up (i + step) stop step"
      using True 1(2) by simp
    also have "\<dots> = i # map (\<lambda>k. i + step + int k * step) [0..<n]"
      using 1 True by (simp add: n_def)
    also have "\<dots> = map (\<lambda>k. i + int k * step) (0 # map Suc [0..<n])"
      by (simp add: algebra_simps)
    also have "0 # map Suc [0..<n] = [0..<Suc n]"
      by (simp add: upt_conv_Cons map_Suc_upt del: upt_Suc)
    finally show ?thesis by (simp only: len)
  qed
qed


lemma py_slice_window:
  "0 \<le> i \<Longrightarrow> 0 \<le> c \<Longrightarrow> py_slice text i (i + c) = take (nat c) (drop (nat i) text)"
  by (cases "nat i \<le> length text")
     (auto simp: py_slice_def slice_bound_def Let_def min_def nat_add_distrib)

lemma count_nat:
  assumes "0 < s"
  shows "nat ((int n + s - 1) div s) = (n + nat s - 1) div nat s"
proof -
  have "int n + s - 1 = int (n + nat s - 1)" using assms by auto
  moreover have "s = int (nat s)" using assms by simp
  ultimately have "(int n + s - 1) div s = int ((n + nat s - 1) div nat s)"
    by (metis zdiv_int)
  then show ?thesis by simp
qed

lemma chunk_text_windows:
  assumes "0 \<le> chunk_overlap self" "chunk_overlap self < chunk_size self"
  shows "chunk_text self text =
           Inr (windows (nat (chunk_size self)) (nat (chunk_size self - chunk_overlap self)) text)"
proof -
  let ?s = "chunk_size self - chunk_overlap self"
  have s: "0 < ?s" using assms by simp
  have "range_up 0 (int (length text)) ?s =
          map (\<lambda>k. int k * ?s) [0..<(length text + nat ?s - 1) div nat ?s]"
    using range_up_closed [OF s, of 0 "int (length text)"] count_nat [OF s, of "length text"]
    by simp
  moreover have "py_slice text (int k * ?s) (int k * ?s + chunk_size self) =
                   take (nat (chunk_size self)) (drop (k * nat ?s) text)" for k
    using assms by (subst py_slice_window) (auto simp: nat_mult_distrib)
  ultimately show ?thesis
    using s by (simp add: chunk_text_def py_range_def windows_def comp_def)
qed

lemma windows_length: "length (windows c s text) = (length text + s - 1) div s"
  by (simp add: windows_def)

lemma windows_nth:
  "k < length (windows c s text) \<Longrightarrow> windows c s text ! k = take c (drop (k * s) text)"
  by (simp add: windows_def)

lemma window_start:
  assumes "0 < s" "k < (n + s - 1) div s"
  shows "k * s < (n::nat)"
proof (rule ccontr)
  assume "\<not> k * s < n"
  then have "n + s - 1 < k * s + s" using assms(1) by simp
  then have "(n + s - 1) div s < k + 1"
    using assms(1) by (metis div_less_iff_less_mult mult.commute mult_Suc_right Suc_eq_plus1 add.commute)
  with assms(2) show False by simp
qed

lemma window_last:
  assumes "0 < s" "0 < (n::nat)"
  shows "n \<le> ((n + s - 1) div s) * s" "((n + s - 1) div s - 1) * s < n"
proof -
  let ?m = "(n + s - 1) div s"
  have "n + s - 1 = ?m * s + (n + s - 1) mod s" by simp
  moreover have "(n + s - 1) mod s < s" using assms(1) by simp
  ultimately show "n \<le> ?m * s" by linarith
  have "?m * s \<le> n + s - 1" by simp
  moreover have "0 < ?m" using assms by (simp add: div_greater_zero_iff)
  then have "?m * s = (?m - 1) * s + s" by (cases ?m) simp_all
  ultimately show "(?m - 1) * s < n" using assms by linarith
qed


lemma windows_overlap:
  assumes "0 < s" "s \<le> c" "Suc k < length (windows c s text)"
  shows "overlap_by (min (c - s) (length (windows c s text ! Suc k)))
           (windows c s text ! k) (windows c s text ! Suc k)"
proof -
  let ?L = "length text"
  define p where "p = k * s"
  define X where "X = drop (p + s) text"
  define a where "a = take c (drop p text)"
  define b where "b = take c X"
  define m where "m = min (c - s) (length b)"
  have "Suc k * s < ?L"
    using window_start [OF assms(1), of "Suc k" ?L] assms(3) by (simp add: windows_length)
  then have ps: "p + s < ?L" by (simp add: p_def add.commute)
  have wa: "windows c s text ! k = a"
    using assms(3) by (simp add: windows_nth a_def p_def)
  have wb: "windows c s text ! Suc k = b"
    using assms(3) by (simp add: windows_nth b_def X_def p_def add.commute)
  have la: "length a = min c (?L - p)" by (simp add: a_def)
  have lX: "length X = ?L - (p + s)" by (simp add: X_def)
  have lb: "length b = min c (length X)" by (simp add: b_def)
  have m_eq: "m = min (c - s) (length X)"
    unfolding m_def lb by simp
  have diff: "length a - m = s"
    unfolding la m_eq lX using ps assms(2) by (auto simp: min_def)
  have le: "m \<le> length a" "m \<le> length b"
    using diff assms(1) by (simp_all add: m_def)
  have "drop (length a - m) a = take (c - s) X"
    unfolding diff by (simp add: a_def X_def drop_take add.commute)
  also have "\<dots> = take m X"
    unfolding m_eq by (simp add: min_def)
  also have "\<dots> = take m b"
    unfolding b_def using m_eq by (simp add: min_def)
  finally show ?thesis
    unfolding wa wb using le by (simp add: overlap_by_def m_def)
qed

lemma windows_sublist:
  "w \<in> set (windows c s text) \<Longrightarrow> sublist w text"
proof -
  assume "w \<in> set (windows c s text)"
  then obtain k where w: "w = take c (drop (k * s) text)" by (auto simp: windows_def)
  have "text = take (k * s) text @ w @ drop c (drop (k * s) text)"
    unfolding w by (metis append_take_drop_id)
  then show ?thesis unfolding sublist_def by blast
qed

lemma concat_strides:
  "concat (map (\<lambda>k. take s (drop (k * s) text)) [0..<m]) = take (m * s) text"
proof (induction m)
  case 0
  show ?case by simp
next
  case (Suc m)
  have "take (Suc m * s) text = take (m * s + s) text"
    by (simp add: add.commute)
  also have "\<dots> = take (m * s) text @ take s (drop (m * s) text)"
    by (rule take_add)
  finally show ?case using Suc by simp
qed

lemma reassemble_snoc:
  "reassemble s (xs @ [x]) = concat (map (take s) xs) @ x"
  by (induction s xs rule: reassemble.induct) auto

lemma windows_reassemble:
  assumes "0 < s" "s \<le> c"
  shows "reassemble s (windows c s text) = text"
proof (cases "text = []")
  case True
  then show ?thesis using assms by (simp add: windows_def)
next
  case False
  let ?L = "length text"
  let ?n = "(?L + s - 1) div s"
  have L: "0 < ?L" using False by simp
  have "s \<le> ?L + s - 1" using L by linarith
  then have n: "0 < ?n" using assms(1) by (simp add: div_greater_zero_iff)
  then obtain m where m: "?n = Suc m" by (cases ?n) auto
  have cover: "?L \<le> m * s + s" using window_last(1) [OF assms(1) L] m by simp
  have "windows c s text =
          map (\<lambda>k. take c (drop (k * s) text)) [0..<m] @ [take c (drop (m * s) text)]"
    unfolding windows_def m by simp
  then have "reassemble s (windows c s text) =
          concat (map (\<lambda>k. take s (take c (drop (k * s) text))) [0..<m])
            @ take c (drop (m * s) text)"
    by (simp add: reassemble_snoc comp_def)
  also have "\<dots> = take (m * s) text @ take c (drop (m * s) text)"
    using assms(2) by (simp add: min_absorb1 concat_strides)
  also have "take c (drop (m * s) text) = drop (m * s) text"
    using cover assms(2) by simp
  finally show ?thesis by simp
qed


lemma ceiling_count:
  assumes "0 < s"
  shows "\<lceil>real n / real s\<rceil> = int ((n + s - 1) div s)"
proof (cases "n = 0")
  case True
  then show ?thesis using assms by simp
next
  case False
  let ?q = "(n + s - 1) div s"
  have n: "0 < n" using False by simp
  have up: "n \<le> ?q * s" and low: "(?q - 1) * s < n"
    using window_last [OF assms n] by simp_all
  have q: "0 < ?q" using up n by (cases "?q") auto
  have "real n \<le> real (?q * s)" using up by (rule iffD2 [OF of_nat_le_iff])
  then have "real n / real s \<le> real ?q"
    using assms by (simp add: pos_divide_le_eq)
  moreover have "real ((?q - 1) * s) < real n" using low by (rule iffD2 [OF of_nat_less_iff])
  then have "real (?q - 1) < real n / real s"
    using assms by (simp add: pos_less_divide_eq)
  then have "real ?q - 1 < real n / real s"
    using q by (simp add: of_nat_diff)
  ultimately show ?thesis
    by (simp add: ceiling_eq_iff)
qed

subsection \<open>Number of chunks and overlap of neighbours\<close>

lemma windows_neighbours:
  assumes "0 < s" "s \<le> c" "Suc k < length (windows c s text)"
  shows "overlap_by (min (c - s) (length text - Suc k * s))
           (windows c s text ! k) (windows c s text ! Suc k)"
proof -
  have "length (windows c s text ! Suc k) = min c (length text - Suc k * s)"
    using assms(3) by (simp add: windows_nth)
  then have "min (c - s) (length (windows c s text ! Suc k))
               = min (c - s) (length text - Suc k * s)"
    by simp
  then show ?thesis
    using windows_overlap [OF assms] by simp
qed

lemma windows_full_neighbours:
  assumes "0 < s" "s \<le> c" "Suc k < length (windows c s text)"
      and "length (windows c s text ! k) = c"
  shows "overlap_by (c - s) (windows c s text ! k) (windows c s text ! Suc k)"
proof -
  have "k < length (windows c s text)" using assms(3) by simp
  then have "length (windows c s text ! k) = min c (length text - k * s)"
    by (simp add: windows_nth)
  with assms(4) have "c \<le> length text - k * s" by simp
  then have "c - s \<le> length text - Suc k * s" by simp
  then have "min (c - s) (length text - Suc k * s) = c - s" by simp
  then show ?thesis
    using windows_neighbours [OF assms(1-3)] by simp
qed

text \<open>
  Claim C1, as amended. For \<open>0 \<le> chunk_overlap < chunk_size\<close> and a text of length \<open>L\<close>,
  \<open>_chunk_text\<close> returns exactly \<open>\<lceil>L / (chunk_size - chunk_overlap)\<rceil>\<close> chunks, chunk \<open>k\<close>
  being the \<open>chunk_size\<close> characters of the text from position
  \<open>k * (chunk_size - chunk_overlap)\<close> on, or those that are left. Every chunk of full
  length \<open>chunk_size\<close> overlaps with the next one by exactly \<open>chunk_overlap\<close> characters;
  in general chunks \<open>k\<close> and \<open>k + 1\<close> overlap by exactly the smaller of \<open>chunk_overlap\<close> and
  \<open>L - (k + 1) * (chunk_size - chunk_overlap)\<close>.
\<close>

theorem chunk_text_count_overlap:
  assumes "0 \<le> chunk_overlap self" "chunk_overlap self < chunk_size self"
  shows "\<exists>cs. chunk_text self text = Inr cs
           \<and> int (length cs)
               = \<lceil>real (length text) / real_of_int (chunk_size self - chunk_overlap self)\<rceil>
           \<and> (\<forall>k < length cs.
                 cs ! k = take (nat (chunk_size self))
                            (drop (k * nat (chunk_size self - chunk_overlap self)) text))
           \<and> (\<forall>k. Suc k < length cs \<longrightarrow> length (cs ! k) = nat (chunk_size self) \<longrightarrow>
                 overlap_by (nat (chunk_overlap self)) (cs ! k) (cs ! Suc k))
           \<and> (\<forall>k. Suc k < length cs \<longrightarrow>
                 overlap_by (min (nat (chunk_overlap self))
                              (length text - Suc k * nat (chunk_size self - chunk_overlap self)))
                   (cs ! k) (cs ! Suc k))"
proof -
  let ?c = "nat (chunk_size self)"
  let ?s = "nat (chunk_size self - chunk_overlap self)"
  let ?cs = "windows ?c ?s text"
  have s: "0 < ?s" "?s \<le> ?c" using assms by simp_all
  have o: "nat (chunk_overlap self) = ?c - ?s" using assms by simp
  have run: "chunk_text self text = Inr ?cs"
    using assms by (rule chunk_text_windows)
  have "0 \<le> chunk_size self - chunk_overlap self" using assms by simp
  then have stride: "real ?s = real_of_int (chunk_size self - chunk_overlap self)"
    by (rule of_nat_nat)
  have "int (length ?cs) = int ((length text + ?s - 1) div ?s)"
    by (simp only: windows_length)
  also have "\<dots> = \<lceil>real (length text) / real ?s\<rceil>"
    by (rule ceiling_count [OF s(1), symmetric])
  finally have count: "int (length ?cs)
      = \<lceil>real (length text) / real_of_int (chunk_size self - chunk_overlap self)\<rceil>"
    unfolding stride .
  show ?thesis
  proof (intro exI conjI allI impI)
    show "chunk_text self text = Inr ?cs" by (rule run)
    show "int (length ?cs)
      = \<lceil>real (length text) / real_of_int (chunk_size self - chunk_overlap self)\<rceil>"
      by (rule count)
    show "?cs ! k = take ?c (drop (k * ?s) text)" if "k < length ?cs" for k
      using that by (rule windows_nth)
    show "overlap_by (nat (chunk_overlap self)) (?cs ! k) (?cs ! Suc k)"
      if "Suc k < length ?cs" "length (?cs ! k) = ?c" for k
      unfolding o using s that by (rule windows_full_neighbours)
    show "overlap_by (min (nat (chunk_overlap self)) (length text - Suc k * ?s))
            (?cs ! k) (?cs ! Suc k)" if "Suc k < length ?cs" for k
      unfolding o using s that by (rule windows_neighbours)
  qed
qed

theorem chunk_text_count_overlap_witness:
  "0 \<le> chunk_overlap (new_source 4 1)
   \<and> chunk_overlap (new_source 4 1) < chunk_size (new_source 4 1)
   \<and> chunk_text (new_source 4 1) ''abcdefghij'' = Inr [''abcd'', ''defg'', ''ghij'', ''j'']
   \<and> length (''abcd'' :: string) = nat (chunk_size (new_source 4 1))
   \<and> overlap_by (nat (chunk_overlap (new_source 4 1))) ''abcd'' ''defg''
   \<and> (\<exists>cs. chunk_text (new_source 4 1) ''abcdefghij'' = Inr cs
         \<and> int (length cs) = \<lceil>real (length ''abcdefghij'')
               / real_of_int (chunk_size (new_source 4 1) - chunk_overlap (new_source 4 1))\<rceil>
         \<and> (\<forall>k < length cs.
               cs ! k = take (nat (chunk_size (new_source 4 1)))
                  (drop (k * nat (chunk_size (new_source 4 1) - chunk_overlap (new_source 4 1)))
                     ''abcdefghij''))
         \<and> (\<forall>k. Suc k < length cs \<longrightarrow> length (cs ! k) = nat (chunk_size (new_source 4 1)) \<longrightarrow>
               overlap_by (nat (chunk_overlap (new_source 4 1))) (cs ! k) (cs ! Suc k))
         \<and> (\<forall>k. Suc k < length cs \<longrightarrow>
               overlap_by (min (nat (chunk_overlap (new_source 4 1)))
                   (length ''abcdefghij''
                      - Suc k * nat (chunk_size (new_source 4 1) - chunk_overlap (new_source 4 1))))
                 (cs ! k) (cs ! Suc k)))"
proof -
  have h1: "0 \<le> chunk_overlap (new_source 4 1)"
    by (simp add: new_source_def)
  have h2: "chunk_overlap (new_source 4 1) < chunk_size (new_source 4 1)"
    by (simp add: new_source_def)
  have v: "chunk_text (new_source 4 1) ''abcdefghij'' = Inr [''abcd'', ''defg'', ''ghij'', ''j'']"
    by (simp add: chunk_text_def new_source_def py_range_def py_slice_def slice_bound_def)
  have f: "length (''abcd'' :: string) = nat (chunk_size (new_source 4 1))"
    "overlap_by (nat (chunk_overlap (new_source 4 1))) ''abcd'' ''defg''"
    by (simp_all add: new_source_def overlap_by_def)
  from h1 h2 v f chunk_text_count_overlap [OF h1 h2, of "''abcdefghij''"]
  show ?thesis by (intro conjI)
qed

text \<open>
  The claim as first stated asks for an overlap of exactly \<open>chunk_overlap\<close> between every
  two neighbours. With chunk size 3 and overlap 2 the text \<open>ab\<close> gives the chunks \<open>ab\<close>
  and \<open>b\<close>; the second has one character only, so the two cannot share two.
\<close>

theorem chunk_text_overlap_counterexample:
  "chunk_text (new_source 3 2) ''ab'' = Inr [''ab'', ''b'']
   \<and> \<not> adjacent_overlap (nat (chunk_overlap (new_source 3 2))) [''ab'', ''b'']"
  by (simp add: chunk_text_def new_source_def py_range_def py_slice_def slice_bound_def
        overlap_by_def)

subsection \<open>An overlap that reaches the chunk size\<close>

text \<open>
  Claim C4, as amended. When \<open>chunk_overlap \<ge> chunk_size\<close>, \<open>_chunk_text\<close> returns at
  once: with \<open>chunk_overlap = chunk_size\<close> the zero step makes \<open>range\<close> raise
  \<open>ValueError\<close>, and with \<open>chunk_overlap > chunk_size\<close> the negative step makes the range
  empty and the result is the empty list. In neither case is a zero-length chunk
  produced.
\<close>

theorem chunk_text_degenerate:
  assumes "chunk_size self \<le> chunk_overlap self"
  shows "chunk_text self text =
           (if chunk_overlap self = chunk_size self
            then Inl (ValueError ''range() arg 3 must not be zero'') else Inr [])
         \<and> \<not> has_empty_chunk (chunk_text self text)"
  using assms by (simp add: chunk_text_def py_range_def has_empty_chunk_def)

theorem chunk_text_degenerate_witness:
  "chunk_size (new_source 2 3) \<le> chunk_overlap (new_source 2 3)
   \<and> chunk_text (new_source 2 3) ''ab'' = Inr []"
  using chunk_text_degenerate [of "new_source 2 3" "''ab''"]
  by (simp add: new_source_def)

text \<open>
  The claim as first stated expects an endless loop or zero-length chunks. At chunk
  size 2 the text \<open>ab\<close> gives an error for overlap 2 and no chunk at all for overlap 3.
\<close>

theorem chunk_text_degenerate_counterexample:
  "chunk_text (new_source 2 2) ''ab'' = Inl (ValueError ''range() arg 3 must not be zero'')
   \<and> \<not> has_empty_chunk (chunk_text (new_source 2 2) ''ab'')
   \<and> chunk_text (new_source 2 3) ''ab'' = Inr []
   \<and> \<not> has_empty_chunk (chunk_text (new_source 2 3) ''ab'')"
  by (simp add: chunk_text_def new_source_def py_range_def has_empty_chunk_def)

subsection \<open>The chunks cover the text\<close>

text \<open>
  Claim C8. For \<open>0 \<le> chunk_overlap < chunk_size\<close>, every chunk returned by \<open>_chunk_text\<close>
  is a contiguous substring of the text, and the first \<open>chunk_size - chunk_overlap\<close>
  characters of every chunk but the last, followed by the whole last chunk, are the
  text again.
\<close>

theorem chunk_text_reassemble:
  assumes "0 \<le> chunk_overlap self" "chunk_overlap self < chunk_size self"
  shows "\<exists>cs. chunk_text self text = Inr cs
           \<and> (\<forall>c \<in> set cs. sublist c text)
           \<and> reassemble (nat (chunk_size self - chunk_overlap self)) cs = text"
proof -
  let ?c = "nat (chunk_size self)"
  let ?s = "nat (chunk_size self - chunk_overlap self)"
  have s: "0 < ?s" "?s \<le> ?c" using assms by simp_all
  have "chunk_text self text = Inr (windows ?c ?s text)"
    using assms by (rule chunk_text_windows)
  moreover have "\<forall>c \<in> set (windows ?c ?s text). sublist c text"
    by (blast intro: windows_sublist)
  moreover have "reassemble ?s (windows ?c ?s text) = text"
    using s by (rule windows_reassemble)
  ultimately show ?thesis by blast
qed

theorem chunk_text_reassemble_witness:
  "0 \<le> chunk_overlap (new_source 5 2)
   \<and> chunk_overlap (new_source 5 2) < chunk_size (new_source 5 2)
   \<and> (\<exists>cs. chunk_text (new_source 5 2) ''knowledge base'' = Inr cs
         \<and> (\<forall>c \<in> set cs. sublist c ''knowledge base'')
         \<and> reassemble (nat (chunk_size (new_source 5 2) - chunk_overlap (new_source 5 2))) cs
             = ''knowledge base'')"
proof -
  have h1: "0 \<le> chunk_overlap (new_source 5 2)"
    by (simp add: new_source_def)
  have h2: "chunk_overlap (new_source 5 2) < chunk_size (new_source 5 2)"
    by (simp add: new_source_def)
  from h1 h2 chunk_text_reassemble [OF h1 h2, of "''knowledge base''"]
  show ?thesis by (intro conjI)
qed

subsection \<open>Saving without a storage\<close>





section \<open>Properties of the cache tool\<close>

subsection \<open>Cutting a string at a separator\<close>

lemma split_from_absent:
  "\<not> sublist sep s \<Longrightarrow> split_from sep cur s = [cur @ s]"
  by (induction s arbitrary: cur) (simp_all add: sublist_Cons_right)

lemma prefix_of_longer:
  assumes "prefix sep (pre @ sep @ rest)" "pre \<noteq> []" "sep \<noteq> []"
  shows "prefix sep (pre @ butlast sep)"
proof -
  have "length sep \<le> length (pre @ butlast sep)"
    using assms(2,3) by (cases pre) simp_all
  moreover have "pre @ sep @ rest = (pre @ butlast sep) @ (last sep # rest)"
    using assms(3) by simp
  ultimately show ?thesis
    using assms(1) by (metis prefix_length_prefix prefixI prefix_order.dual_order.refl append_prefixD prefix_append)
qed

lemma split_from_first:
  assumes "sep \<noteq> []"
  shows "\<not> sublist sep (pre @ butlast sep) \<Longrightarrow>
         split_from sep cur (pre @ sep @ rest) = (cur @ pre) # split_from sep [] rest"
proof (induction pre arbitrary: cur)
  case Nil
  obtain c cs where sep: "sep = c # cs" using assms by (cases sep) auto
  have "split_from sep cur (c # cs @ rest) = cur # split_from sep [] rest"
    by (subst split_from.simps) (simp add: sep)
  then show ?case by (simp add: sep)
next
  case (Cons p ps)
  have no: "\<not> prefix sep ((p # ps) @ butlast sep)" "\<not> sublist sep (ps @ butlast sep)"
    using Cons.prems by (simp_all add: sublist_Cons_right)
  have "\<not> prefix sep ((p # ps) @ sep @ rest)"
    using prefix_of_longer [of sep "p # ps" rest] assms no(1) by blast
  then have "split_from sep cur ((p # ps) @ sep @ rest)
               = split_from sep (cur @ [p]) (ps @ sep @ rest)"
    by simp
  also have "\<dots> = ((cur @ [p]) @ ps) # split_from sep [] rest"
    using no(2) by (rule Cons.IH)
  finally show ?case by simp
qed

lemma no_straddle_right:
  assumes "\<not> sublist p a" "\<not> sublist p b" "b \<noteq> []" "hd b \<notin> set (tl p)"
  shows "\<not> sublist p (a @ b)"
proof
  assume "sublist p (a @ b)"
  then obtain x y where xy: "p = x @ y" "suffix x a" "prefix y b"
    using assms(1,2) by (auto simp: sublist_append)
  have "x \<noteq> []" using xy assms(2) by auto
  moreover have "y \<noteq> []" using xy assms(1) by auto
  then have "hd b = hd y" "hd y \<in> set y"
    using xy(3) assms(3) by (auto simp: prefix_def)
  ultimately have "hd b \<in> set (tl p)"
    unfolding xy(1) by (cases x) auto
  with assms(4) show False by simp
qed

lemma no_straddle_left:
  assumes "\<not> sublist p a" "\<not> sublist p b" "a \<noteq> []" "last a \<notin> set (butlast p)"
  shows "\<not> sublist p (a @ b)"
proof
  assume "sublist p (a @ b)"
  then obtain x y where xy: "p = x @ y" "suffix x a" "prefix y b"
    using assms(1,2) by (auto simp: sublist_append)
  have y: "y \<noteq> []" using xy assms(1) by auto
  have "x \<noteq> []" using xy assms(2) by auto
  then have "last a = last x" "last x \<in> set x"
    using xy(2) assms(3) by (auto simp: suffix_def)
  then have "last a \<in> set (butlast p)"
    unfolding xy(1) using y by (simp add: butlast_append)
  with assms(4) show False by simp
qed

lemma split_from_head:
  "\<exists>u others. split_from sep cur s = (cur @ u) # others \<and> prefix u s"
proof (induction sep cur s rule: split_from.induct)
  case (1 sep cur)
  show ?case by simp
next
  case (2 sep cur c cs)
  show ?case
  proof (cases "sep \<noteq> [] \<and> prefix sep (c # cs)")
    case True
    then have "split_from sep cur (c # cs)
                 = (cur @ []) # split_from sep [] (drop (length sep) (c # cs))"
      by simp
    moreover have "prefix [] (c # cs)" by simp
    ultimately show ?thesis by blast
  next
    case False
    with 2 obtain u others where u: "split_from sep (cur @ [c]) cs = ((cur @ [c]) @ u) # others"
      "prefix u cs" by blast
    from False have "split_from sep cur (c # cs) = (cur @ (c # u)) # others"
      using u(1) by simp
    moreover have "prefix (c # u) (c # cs)" using u(2) by simp
    ultimately show ?thesis by blast
  qed
qed

subsection \<open>The two delimiters of a cache key\<close>

text \<open>
  Neither delimiter can begin inside a value and end inside the delimiter that follows
  it: \<open>|\<close> occurs in \<open>|input:\<close> only at the start and not at all in \<open>tool:\<close>, and \<open>:\<close>
  occurs in \<open>tool:\<close> only at the end.
\<close>

lemma tool_absent:
  assumes "\<not> sublist ''tool:'' X" "\<not> sublist ''tool:'' Y"
  shows "\<not> sublist ''tool:'' (X @ ''|input:'' @ Y)"
proof -
  have "\<not> sublist ''tool:'' ''|input:''"
    by (simp add: sublist_Cons_right)
  then have "\<not> sublist ''tool:'' (''|input:'' @ Y)"
    using assms(2) by (rule no_straddle_left) simp_all
  with assms(1) show ?thesis
    by (rule no_straddle_right) simp_all
qed

lemma input_not_earlier:
  assumes "\<not> sublist ''|input:'' X"
  shows "\<not> sublist ''|input:'' (X @ butlast ''|input:'')"
proof -
  have "\<not> sublist ''|input:'' (butlast ''|input:'')"
    by (simp add: sublist_Cons_right)
  with assms show ?thesis
    by (rule no_straddle_right) simp_all
qed

lemma split_tool_key:
  assumes "\<not> sublist ''tool:'' X" "\<not> sublist ''tool:'' Y"
  shows "split_from ''tool:'' [] (''tool:'' @ X @ ''|input:'' @ Y) = [[], X @ ''|input:'' @ Y]"
proof -
  have "\<not> sublist ''tool:'' ([] @ butlast ''tool:'')"
    by (simp add: sublist_Cons_right)
  then have "split_from ''tool:'' [] ([] @ ''tool:'' @ X @ ''|input:'' @ Y)
               = ([] @ []) # split_from ''tool:'' [] (X @ ''|input:'' @ Y)"
    by (intro split_from_first) simp_all
  moreover have "split_from ''tool:'' [] (X @ ''|input:'' @ Y) = [[] @ X @ ''|input:'' @ Y]"
    using tool_absent [OF assms] by (rule split_from_absent)
  ultimately show ?thesis by simp
qed

lemma split_input_segment:
  assumes "\<not> sublist ''|input:'' X" "\<not> sublist ''|input:'' Y"
  shows "split_from ''|input:'' [] (X @ ''|input:'' @ Y) = [X, Y]"
proof -
  have "split_from ''|input:'' [] (X @ ''|input:'' @ Y)
          = ([] @ X) # split_from ''|input:'' [] Y"
    using input_not_earlier [OF assms(1)] by (intro split_from_first) simp_all
  moreover have "split_from ''|input:'' [] Y = [[] @ Y]"
    using assms(2) by (rule split_from_absent)
  ultimately show ?thesis by simp
qed

lemma py_strip_trimmed: "trimmed s \<Longrightarrow> py_strip s = s"
proof (cases "s = []")
  case True
  then show ?thesis by (simp add: py_strip_def)
next
  case False
  assume "trimmed s"
  with False have ends: "\<not> isspace (hd s)" "\<not> isspace (last s)"
    by (simp_all add: trimmed_def)
  have "dropWhile isspace s = s"
    using False ends(1) by (cases s) simp_all
  moreover have "dropWhile isspace (rev s) = rev s"
    using False ends(2) by (cases "rev s") (simp_all add: last_rev [symmetric] hd_rev)
  ultimately show ?thesis by (simp add: py_strip_def)
qed

lemma hit_cache_well_formed:
  assumes "\<not> sublist ''tool:'' X" "\<not> sublist ''|input:'' X"
      and "\<not> sublist ''tool:'' Y" "\<not> sublist ''|input:'' Y"
  shows "hit_cache read (''tool:'' @ X @ ''|input:'' @ Y)
           = propagate (read (py_strip X) (py_strip Y))"
proof -
  have "py_split ''tool:'' (''tool:'' @ X @ ''|input:'' @ Y) = Inr [[], X @ ''|input:'' @ Y]"
    using split_tool_key [OF assms(1,3)] by (simp add: py_split_def)
  moreover have "py_index [[], X @ ''|input:'' @ Y] 1 = Inr (X @ ''|input:'' @ Y)"
    by (simp add: py_index_def)
  moreover have "py_split ''|input:'' (X @ ''|input:'' @ Y) = Inr [X, Y]"
    using split_input_segment [OF assms(2,4)] by (simp add: py_split_def)
  moreover have "py_index [X, Y] 0 = Inr X" "py_index [X, Y] 1 = Inr Y"
    by (simp_all add: py_index_def)
  ultimately show ?thesis
    by (simp add: hit_cache_def del: append.simps split_from.simps)
qed

lemma hit_cache_no_tool:
  assumes "\<not> sublist ''tool:'' key"
  shows "hit_cache read key = Inl (IndexError ''list index out of range'')"
proof -
  have "py_split ''tool:'' key = Inr [key]"
    using split_from_absent [OF assms, of "[]"] by (simp add: py_split_def)
  moreover have "py_index [key] 1 = Inl (IndexError ''list index out of range'')"
    by (simp add: py_index_def)
  ultimately show ?thesis by (simp add: hit_cache_def)
qed

lemma hit_cache_no_input:
  assumes "py_split ''tool:'' key = Inr split" "py_index split 1 = Inr seg"
      and "\<not> sublist ''|input:'' seg"
  shows "hit_cache read key = Inl (IndexError ''list index out of range'')"
proof -
  have "py_split ''|input:'' seg = Inr [seg]"
    using split_from_absent [OF assms(3), of "[]"] by (simp add: py_split_def)
  moreover have "py_index [seg] 0 = Inr seg"
    "py_index [seg] 1 = Inl (IndexError ''list index out of range'')"
    by (simp_all add: py_index_def)
  ultimately show ?thesis
    using assms(1,2) by (simp add: hit_cache_def)
qed

lemma hit_cache_no_input_after_tool:
  assumes "key = pre @ ''tool:'' @ rest" "\<not> sublist ''tool:'' (pre @ butlast ''tool:'')"
      and "\<not> sublist ''|input:'' rest"
  shows "hit_cache read key = Inl (IndexError ''list index out of range'')"
proof -
  obtain u others where u: "split_from ''tool:'' [] rest = ([] @ u) # others" "prefix u rest"
    using split_from_head by blast
  have "split_from ''tool:'' [] key = ([] @ pre) # split_from ''tool:'' [] rest"
    unfolding assms(1) using assms(2) by (intro split_from_first) simp_all
  then have "py_split ''tool:'' key = Inr (pre # u # others)"
    using u(1) by (simp add: py_split_def)
  moreover have "py_index (pre # u # others) 1 = Inr u"
    by (simp add: py_index_def)
  moreover have "\<not> sublist ''|input:'' u"
    using u(2) assms(3) by (meson prefix_imp_sublist sublist_order.order.trans)
  ultimately show ?thesis by (rule hit_cache_no_input)
qed

subsection \<open>A well-formed key\<close>

text \<open>
  Claim C3, as amended. For all strings \<open>X\<close> and \<open>Y\<close> that contain neither \<open>tool:\<close> nor
  \<open>|input:\<close>, \<open>hit_cache\<close> on the key \<open>tool:X|input:Y\<close> parses the tool as \<open>X.strip()\<close> and
  the input as \<open>Y.strip()\<close> and returns what \<open>cache_handler.read\<close> returns for them; the
  parsed values are \<open>X\<close> and \<open>Y\<close> themselves when these have no white space at their ends.
\<close>

theorem hit_cache_parses:
  assumes "\<not> sublist ''tool:'' X" "\<not> sublist ''|input:'' X"
      and "\<not> sublist ''tool:'' Y" "\<not> sublist ''|input:'' Y"
  shows "hit_cache read (''tool:'' @ X @ ''|input:'' @ Y)
           = propagate (read (py_strip X) (py_strip Y))
         \<and> (trimmed X \<and> trimmed Y \<longrightarrow>
              hit_cache read (''tool:'' @ X @ ''|input:'' @ Y) = propagate (read X Y))"
  using hit_cache_well_formed [OF assms, of read] by (simp add: py_strip_trimmed)

theorem hit_cache_parses_witness:
  "\<not> sublist ''tool:'' ''search'' \<and> \<not> sublist ''|input:'' ''search''
   \<and> \<not> sublist ''tool:'' ''rain in Paris'' \<and> \<not> sublist ''|input:'' ''rain in Paris''
   \<and> trimmed ''search'' \<and> trimmed ''rain in Paris''
   \<and> hit_cache echo_read (''tool:'' @ ''search'' @ ''|input:'' @ ''rain in Paris'')
       = Inr (''search'', ''rain in Paris'')"
proof -
  have h: "\<not> sublist ''tool:'' ''search''" "\<not> sublist ''|input:'' ''search''"
    "\<not> sublist ''tool:'' ''rain in Paris''" "\<not> sublist ''|input:'' ''rain in Paris''"
    by (simp_all add: sublist_Cons_right)
  have t: "trimmed ''search''" "trimmed ''rain in Paris''"
    by (simp_all add: trimmed_def isspace_def)
  have "hit_cache echo_read (''tool:'' @ ''search'' @ ''|input:'' @ ''rain in Paris'')
          = propagate (echo_read ''search'' ''rain in Paris'')"
    using hit_cache_parses [OF h, of echo_read] t by blast
  then have "hit_cache echo_read (''tool:'' @ ''search'' @ ''|input:'' @ ''rain in Paris'')
          = Inr (''search'', ''rain in Paris'')"
    by (simp only: propagate_def echo_read_def sum.case)
  with h t show ?thesis by (intro conjI)
qed

text \<open>
  The claim as first stated has \<open>X\<close> and \<open>Y\<close> passed on as they are. For \<open>X\<close> a space
  followed by \<open>a\<close>, the tool that reaches the cache handler is \<open>a\<close>.
\<close>

theorem hit_cache_parses_counterexample:
  "\<not> sublist ''tool:'' '' a'' \<and> \<not> sublist ''|input:'' '' a''
   \<and> \<not> sublist ''tool:'' ''b'' \<and> \<not> sublist ''|input:'' ''b''
   \<and> hit_cache echo_read (''tool:'' @ '' a'' @ ''|input:'' @ ''b'') = Inr (''a'', ''b'')
   \<and> hit_cache echo_read (''tool:'' @ '' a'' @ ''|input:'' @ ''b'')
       \<noteq> propagate (echo_read '' a'' ''b'')"
  by (simp add: sublist_Cons_right hit_cache_def py_split_def py_index_def py_strip_def
        isspace_def propagate_def echo_read_def)

subsection \<open>A key without its delimiters\<close>

text \<open>
  Claim C9. If the key does not contain \<open>tool:\<close>, or if the segment after the first
  \<open>tool:\<close> (the element 1 of the split) does not contain \<open>|input:\<close>, then \<open>hit_cache\<close>
  raises \<open>IndexError\<close>; nothing in the function catches it.
\<close>

theorem hit_cache_index_error:
  assumes "\<not> sublist ''tool:'' key
           \<or> (\<exists>split seg. py_split ''tool:'' key = Inr split \<and> py_index split 1 = Inr seg
                 \<and> \<not> sublist ''|input:'' seg)"
  shows "hit_cache read key = Inl (IndexError ''list index out of range'')"
  using assms hit_cache_no_tool hit_cache_no_input by blast

theorem hit_cache_index_error_witness:
  "\<not> sublist ''tool:'' ''search for Paris''
   \<and> hit_cache echo_read ''search for Paris'' = Inl (IndexError ''list index out of range'')
   \<and> py_split ''tool:'' ''tool:search tool:b|input:c'' = Inr ['''', ''search '', ''b|input:c'']
   \<and> py_index ['''', ''search '', ''b|input:c''] 1 = Inr ''search ''
   \<and> \<not> sublist ''|input:'' ''search ''
   \<and> hit_cache echo_read ''tool:search tool:b|input:c''
       = Inl (IndexError ''list index out of range'')"
proof -
  have a: "\<not> sublist ''tool:'' ''search for Paris''"
    by (simp add: sublist_Cons_right)
  have b: "py_split ''tool:'' ''tool:search tool:b|input:c'' = Inr ['''', ''search '', ''b|input:c'']"
    "py_index ['''', ''search '', ''b|input:c''] 1 = Inr ''search ''"
    "\<not> sublist ''|input:'' ''search ''"
    by (simp_all add: py_split_def py_index_def sublist_Cons_right)
  from b have c: "\<exists>split seg. py_split ''tool:'' ''tool:search tool:b|input:c'' = Inr split
      \<and> py_index split 1 = Inr seg \<and> \<not> sublist ''|input:'' seg"
    by blast
  show ?thesis
    using hit_cache_index_error [OF disjI1 [OF a], of echo_read]
      hit_cache_index_error [OF disjI2 [OF c], of echo_read] a b
    by (intro conjI)
qed


section \<open>Properties of the prompt builder\<close>

subsection \<open>Replacing is cutting and joining\<close>

lemma py_replace_absent:
  "old \<noteq> [] \<Longrightarrow> \<not> sublist old s \<Longrightarrow> py_replace old new s = s"
  by (induction s) (simp_all add: sublist_Cons_right)

lemma py_replace_first:
  assumes "old \<noteq> []"
  shows "\<not> sublist old (pre @ butlast old) \<Longrightarrow>
         py_replace old new (pre @ old @ rest) = pre @ new @ py_replace old new rest"
proof (induction pre)
  case Nil
  obtain c cs where old: "old = c # cs" using assms by (cases old) auto
  have "py_replace old new (c # cs @ rest) = new @ py_replace old new rest"
    by (subst py_replace.simps) (simp add: old)
  then show ?case by (simp add: old)
next
  case (Cons p ps)
  have no: "\<not> prefix old ((p # ps) @ butlast old)" "\<not> sublist old (ps @ butlast old)"
    using Cons.prems by (simp_all add: sublist_Cons_right)
  have "\<not> prefix old ((p # ps) @ old @ rest)"
    using prefix_of_longer [of old "p # ps" rest] assms no(1) by blast
  then have "py_replace old new ((p # ps) @ old @ rest)
               = p # py_replace old new (ps @ old @ rest)"
    using assms by simp
  also have "py_replace old new (ps @ old @ rest) = ps @ new @ py_replace old new rest"
    using no(2) by (rule Cons.IH)
  finally show ?case by simp
qed

lemma first_occurrence:
  assumes "old \<noteq> []"
  shows "sublist old s \<Longrightarrow>
         \<exists>pre rest. s = pre @ old @ rest \<and> \<not> sublist old (pre @ butlast old)"
proof (induction s)
  case Nil
  then show ?case using assms by simp
next
  case (Cons c cs)
  have "0 < length old" using assms by simp
  then have "length (butlast old) < length old" by simp
  then have short: "\<not> sublist old (butlast old)"
    using sublist_length_le [of old "butlast old"] by linarith
  show ?case
  proof (cases "prefix old (c # cs)")
    case True
    then obtain rest where "c # cs = [] @ old @ rest" by (auto simp: prefix_def)
    moreover have "\<not> sublist old ([] @ butlast old)" using short by simp
    ultimately show ?thesis by blast
  next
    case False
    with Cons.prems have "sublist old cs" by (simp add: sublist_Cons_right)
    then obtain pre rest where pr: "cs = pre @ old @ rest" "\<not> sublist old (pre @ butlast old)"
      using Cons.IH by blast
    have "prefix ((c # pre) @ butlast old) (c # cs)"
      unfolding pr(1) using assms
      by (metis append.assoc append_Cons append_butlast_last_id prefixI)
    then have "\<not> prefix old ((c # pre) @ butlast old)"
      using False by (meson prefix_order.trans)
    with pr(2) have "\<not> sublist old ((c # pre) @ butlast old)"
      by (simp add: sublist_Cons_right)
    moreover have "c # cs = (c # pre) @ old @ rest" by (simp add: pr(1))
    ultimately show ?thesis by blast
  qed
qed

lemma split_from_nonempty: "split_from sep cur s \<noteq> []"
  using split_from_head [of sep cur s] by auto

lemma py_join_Cons: "xs \<noteq> [] \<Longrightarrow> py_join sep (x # xs) = x @ sep @ py_join sep xs"
  by (cases xs) simp_all

lemma not_sublist_prefix_part: "\<not> sublist old (pre @ suf) \<Longrightarrow> \<not> sublist old pre"
  by (metis sublist_append)

lemma split_replace_pieces:
  assumes "old \<noteq> []"
  shows "(\<forall>x \<in> set (split_from old [] s). \<not> sublist old x)
         \<and> py_join old (split_from old [] s) = s
         \<and> py_join new (split_from old [] s) = py_replace old new s"
proof (induction "length s" arbitrary: s rule: less_induct)
  case less
  show ?case
  proof (cases "sublist old s")
    case False
    then show ?thesis
      using assms by (simp add: split_from_absent py_replace_absent)
  next
    case True
    then obtain pre rest where pr: "s = pre @ old @ rest" "\<not> sublist old (pre @ butlast old)"
      using first_occurrence [OF assms] by blast
    have "length rest < length s" using assms by (simp add: pr(1))
    then have IH: "\<forall>x \<in> set (split_from old [] rest). \<not> sublist old x"
      "py_join old (split_from old [] rest) = rest"
      "py_join new (split_from old [] rest) = py_replace old new rest"
      using less by blast+
    have sp: "split_from old [] s = pre # split_from old [] rest"
      unfolding pr(1) using split_from_first [OF assms pr(2), of "[]" rest] by simp
    have rp: "py_replace old new s = pre @ new @ py_replace old new rest"
      unfolding pr(1) using assms pr(2) by (rule py_replace_first)
    have "\<not> sublist old pre" using pr(2) by (rule not_sublist_prefix_part)
    then show ?thesis
      unfolding sp rp using IH
      by (simp add: py_join_Cons split_from_nonempty pr(1))
  qed
qed

lemma py_replace_replaced_all:
  assumes "old \<noteq> []"
  shows "replaced_all old new s (py_replace old new s)"
  unfolding replaced_all_def
  using split_replace_pieces [OF assms, of s new] split_from_nonempty [of old "[]" s]
  by (intro exI [of _ "split_from old [] s"]) simp

subsection \<open>The final substitution\<close>

text \<open>
  Claim C7. Every prompt that \<open>_build_prompt\<close> returns is the assembled template in which
  every occurrence of \<open>{goal}\<close> has been replaced by the agent's goal, then every
  occurrence of \<open>{role}\<close> in the result by the agent's role, then every occurrence of
  \<open>{backstory}\<close> in that result by the agent's backstory.
\<close>

theorem build_prompt_substitutes:
  assumes "build_prompt self components system_template' prompt_template' response_template'
             = Inr p"
  shows "\<exists>template with_goal with_role.
           assemble_prompt self components system_template' prompt_template' response_template'
             = Inr template
         \<and> with_goal = py_replace ''{goal}'' (goal (agent self)) template
         \<and> with_role = py_replace ''{role}'' (role (agent self)) with_goal
         \<and> p = py_replace ''{backstory}'' (backstory (agent self)) with_role
         \<and> replaced_all ''{goal}'' (goal (agent self)) template with_goal
         \<and> replaced_all ''{role}'' (role (agent self)) with_goal with_role
         \<and> replaced_all ''{backstory}'' (backstory (agent self)) with_role p"
proof -
  from assms obtain template where
    t: "assemble_prompt self components system_template' prompt_template' response_template'
          = Inr template"
    and p: "p = py_replace ''{backstory}'' (backstory (agent self))
                 (py_replace ''{role}'' (role (agent self))
                   (py_replace ''{goal}'' (goal (agent self)) template))"
    by (auto simp: build_prompt_def split: sum.splits)
  define with_goal where "with_goal = py_replace ''{goal}'' (goal (agent self)) template"
  define with_role where "with_role = py_replace ''{role}'' (role (agent self)) with_goal"
  have p': "p = py_replace ''{backstory}'' (backstory (agent self)) with_role"
    by (simp only: p with_role_def with_goal_def)
  have "replaced_all ''{goal}'' (goal (agent self)) template with_goal"
    unfolding with_goal_def by (rule py_replace_replaced_all) simp
  moreover have "replaced_all ''{role}'' (role (agent self)) with_goal with_role"
    unfolding with_role_def by (rule py_replace_replaced_all) simp
  moreover have "replaced_all ''{backstory}'' (backstory (agent self)) with_role p"
    unfolding p' by (rule py_replace_replaced_all) simp
  ultimately show ?thesis
    using t p' with_goal_def with_role_def by blast
qed

theorem build_prompt_substitutes_witness:
  "build_prompt sample_prompts [''role_playing'', ''task''] None None None
     = Inr ''You are a scout. Born in {goal}. Goal: win Task: {input}''
   \<and> (\<exists>template with_goal with_role.
         assemble_prompt sample_prompts [''role_playing'', ''task''] None None None = Inr template
       \<and> with_goal = py_replace ''{goal}'' (goal (agent sample_prompts)) template
       \<and> with_role = py_replace ''{role}'' (role (agent sample_prompts)) with_goal
       \<and> ''You are a scout. Born in {goal}. Goal: win Task: {input}''
           = py_replace ''{backstory}'' (backstory (agent sample_prompts)) with_role
       \<and> replaced_all ''{goal}'' (goal (agent sample_prompts)) template with_goal
       \<and> replaced_all ''{role}'' (role (agent sample_prompts)) with_goal with_role
       \<and> replaced_all ''{backstory}'' (backstory (agent sample_prompts)) with_role
           ''You are a scout. Born in {goal}. Goal: win Task: {input}'')"
proof -
  have h: "build_prompt sample_prompts [''role_playing'', ''task''] None None None
             = Inr ''You are a scout. Born in {goal}. Goal: win Task: {input}''"
    by (simp add: build_prompt_def assemble_prompt_def sample_prompts_def two_slices_def
          truthy_def propagate_def)
  from h build_prompt_substitutes [OF h] show ?thesis by (intro conjI)
qed


section \<open>Properties of the modelled converter\<close>

subsection \<open>Running out of attempts\<close>

lemma attempt_exhausts:
  assumes fails: "\<forall>k. isl (strict (target_schema conv) (respond (llm_handle conv) k))
                     \<and> isl (lenient (target_schema conv) (respond (llm_handle conv) k))"
  shows "1 \<le> current_attempt \<Longrightarrow>
         fst (attempt conv current_attempt)
           = Inl (ConverterError ''Failed to convert text into a Pydantic model''
                    (respond (llm_handle conv) (nat (max current_attempt (max_attempts conv)) - 1))
                    (projl (lenient (target_schema conv)
                       (respond (llm_handle conv)
                          (nat (max current_attempt (max_attempts conv)) - 1)))))
         \<and> filter is_completion (snd (attempt conv current_attempt))
           = map (\<lambda>k. Completion (respond (llm_handle conv) k))
               [nat (current_attempt - 1) ..< nat (max current_attempt (max_attempts conv))]"
  using fails
proof (induction conv current_attempt rule: attempt.induct)
  case (1 conv current_attempt)
  let ?response = "respond (llm_handle conv) (nat (current_attempt - 1))"
  obtain reason where s: "strict (target_schema conv) ?response = Inl reason"
    using "1.prems"(2) by (metis sum.collapse(1))
  obtain reason' where l: "lenient (target_schema conv) ?response = Inl reason'"
    using "1.prems"(2) by (metis sum.collapse(1))
  show ?case
  proof (cases "current_attempt < max_attempts conv")
    case False
    then have m: "max current_attempt (max_attempts conv) = current_attempt" by simp
    have idx: "nat current_attempt - 1 = nat (current_attempt - 1)"
      using "1.prems"(1) by simp
    have up: "[nat (current_attempt - 1) ..< nat current_attempt] = [nat (current_attempt - 1)]"
      using "1.prems"(1) by (simp add: upt_conv_Cons nat_diff_distrib flip: idx)
    have "attempt conv current_attempt
            = (Inl (ConverterError ''Failed to convert text into a Pydantic model''
                 ?response reason'),
               [Completion ?response, StrictParse ?response, LenientParse ?response])"
      using False s l by (subst attempt.simps) (simp add: Let_def)
    then show ?thesis
      unfolding m idx up using l by simp
  next
    case True
    then have m: "max current_attempt (max_attempts conv) = max_attempts conv"
      "max (current_attempt + 1) (max_attempts conv) = max_attempts conv" by simp_all
    have IH: "fst (attempt conv (current_attempt + 1))
           = Inl (ConverterError ''Failed to convert text into a Pydantic model''
                    (respond (llm_handle conv) (nat (max_attempts conv) - 1))
                    (projl (lenient (target_schema conv)
                       (respond (llm_handle conv) (nat (max_attempts conv) - 1)))))
         \<and> filter is_completion (snd (attempt conv (current_attempt + 1)))
           = map (\<lambda>k. Completion (respond (llm_handle conv) k))
               [nat current_attempt ..< nat (max_attempts conv)]"
      using "1.IH" [OF refl s l True] "1.prems" unfolding m by simp
    have step: "attempt conv current_attempt
            = (fst (attempt conv (current_attempt + 1)),
               [Completion ?response, StrictParse ?response, LenientParse ?response]
                 @ snd (attempt conv (current_attempt + 1)))"
      using True s l by (subst attempt.simps) (simp add: Let_def split: prod.splits)
    have "nat (current_attempt - 1) < nat (max_attempts conv)"
      "Suc (nat (current_attempt - 1)) = nat current_attempt"
      using True "1.prems"(1) by simp_all
    then have up: "[nat (current_attempt - 1) ..< nat (max_attempts conv)]
            = nat (current_attempt - 1) # [nat current_attempt ..< nat (max_attempts conv)]"
      by (simp add: upt_conv_Cons)
    show ?thesis
      unfolding m step up using IH by simp
  qed
qed

text \<open>
  The test of the retry logic: two answers that are not JSON, then a valid one, with a
  limit of three attempts. The model returns the instance after three completion calls.
\<close>

lemma to_pydantic_third_answer:
  "to_pydantic (sample_converter\<lparr>llm_handle := (llm_handle sample_converter)
       \<lparr>respond := (\<lambda>k. if k < 2 then ''Invalid JSON'' else ''{}'')\<rparr>\<rparr>)
     = (Inr (),
        [Completion ''Invalid JSON'', StrictParse ''Invalid JSON'', LenientParse ''Invalid JSON'',
         Completion ''Invalid JSON'', StrictParse ''Invalid JSON'', LenientParse ''Invalid JSON'',
         Completion ''{}'', StrictParse ''{}''])"
  by (simp add: to_pydantic_def sample_converter_def sublist_Cons_right Let_def)

text \<open>
  Claim C2. When the LLM has no native structured output and every completion it returns
  fails both the strict parse and the lenient fallback, \<open>to_pydantic\<close> issues the
  completion call \<open>max_attempts\<close> times (once when the limit is below one) and then raises
  a \<open>ConverterError\<close> whose raw output is the text of the last call.
\<close>

theorem to_pydantic_exhausts_attempts:
  assumes "\<not> supports_function_calling (llm_handle conv)"
      and "\<forall>k. isl (strict (target_schema conv) (respond (llm_handle conv) k))
               \<and> isl (lenient (target_schema conv) (respond (llm_handle conv) k))"
  shows "\<exists>err. fst (to_pydantic conv) = Inl err
           \<and> message err = ''Failed to convert text into a Pydantic model''
           \<and> raw_output err
               = respond (llm_handle conv) (nat (max 1 (max_attempts conv)) - 1)
           \<and> filter is_completion (snd (to_pydantic conv))
               = map (\<lambda>k. Completion (respond (llm_handle conv) k))
                   [0 ..< nat (max 1 (max_attempts conv))]"
proof -
  have run: "to_pydantic conv = attempt conv 1"
    using assms(1) by (simp add: to_pydantic_def)
  have one: "(1::int) \<le> 1" by simp
  show ?thesis
    unfolding run using attempt_exhausts [OF assms(2) one] by simp
qed

theorem to_pydantic_exhausts_attempts_witness:
  "\<not> supports_function_calling (llm_handle sample_converter)
   \<and> (\<forall>k. isl (strict (target_schema sample_converter) (respond (llm_handle sample_converter) k))
          \<and> isl (lenient (target_schema sample_converter)
                  (respond (llm_handle sample_converter) k)))
   \<and> (\<exists>err. fst (to_pydantic sample_converter) = Inl err
         \<and> message err = ''Failed to convert text into a Pydantic model''
         \<and> raw_output err = ''Still invalid''
         \<and> filter is_completion (snd (to_pydantic sample_converter))
             = [Completion ''Invalid JSON'', Completion ''Still invalid'',
                Completion ''Still invalid''])"
proof -
  have h1: "\<not> supports_function_calling (llm_handle sample_converter)"
    by (simp add: sample_converter_def)
  have h2: "\<forall>k. isl (strict (target_schema sample_converter)
                       (respond (llm_handle sample_converter) k))
          \<and> isl (lenient (target_schema sample_converter)
                  (respond (llm_handle sample_converter) k))"
    by (simp add: sample_converter_def sublist_Cons_right)
  have n: "nat (max 1 (max_attempts sample_converter)) = 3"
    by (simp add: sample_converter_def)
  have r: "respond (llm_handle sample_converter) (3 - 1) = ''Still invalid''"
    "map (\<lambda>k. Completion (respond (llm_handle sample_converter) k)) [0 ..< 3]
       = [Completion ''Invalid JSON'', Completion ''Still invalid'', Completion ''Still invalid'']"
    by (simp_all add: sample_converter_def upt_conv_Cons)
  show ?thesis
    using to_pydantic_exhausts_attempts [OF h1 h2] h1 h2 unfolding n r by (intro conjI)
qed

end
